theory Spec2Isabelle
  imports Main
begin

section \<open>Events, windows and JavaScript conventions\<close>

text \<open>
  A Nostr event as the TypeScript interface \<^verbatim>\<open>NostrEvent\<close> declares it. Timestamps are
  whole seconds; JavaScript numbers hold every integer below \<open>2^53\<close> exactly, so they are
  unbounded integers here. The field \<^verbatim>\<open>id\<close> is called \<open>ev_id\<close>.
\<close>

record nostr_event =
  ev_id :: string
  pubkey :: string
  created_at :: int
  kind :: nat
  tags :: "string list list"
  content :: string
  sig :: string

text \<open>The hooks only ever compare a time range with the literal \<^verbatim>\<open>'custom'\<close>.\<close>

datatype TimeRange = Preset string | Custom

text \<open>
  \<^verbatim>\<open>getDateRange\<close> lives in a module that is not part of the sources at hand; its
  result \<^verbatim>\<open>{ since, until }\<close> is a parameter of everything below. \<^verbatim>\<open>since\<close> is
  used as a number throughout, \<^verbatim>\<open>until\<close> is tested for truthiness before use.
\<close>

record date_range =
  since :: int
  until :: "int option"

text \<open>Truthiness of a possibly missing number: \<^verbatim>\<open>undefined\<close> and \<^verbatim>\<open>0\<close> are falsy.\<close>

fun truthy :: "int option \<Rightarrow> bool" where
  "truthy None = False"
| "truthy (Some n) = (n \<noteq> 0)"

text \<open>
  \<^verbatim>\<open>Math.min(...rs.map(r => r.created_at))\<close>. On the empty list JavaScript answers
  \<^verbatim>\<open>Infinity\<close>, which is \<open>None\<close> here; the source guards every call by a length test.
\<close>

fun Math_min :: "nostr_event list \<Rightarrow> int option" where
  "Math_min [] = None"
| "Math_min (r # rs) = Some (fold (\<lambda>x m. min m (created_at x)) rs (created_at r))"

text \<open>
  \<^verbatim>\<open>.sort((a, b) => b.created_at - a.created_at)\<close>: a stable sort, newest first.
\<close>

definition sort_newest_first :: "nostr_event list \<Rightarrow> nostr_event list" where
  "sort_newest_first rs = sort_key (\<lambda>r. - created_at r) rs"

section \<open>The per-subject cache: window filter and merge\<close>

text \<open>
  The predicate both \<^verbatim>\<open>filter\<close> calls use (in the effect that initialises the state from
  the cache, and in the state update of \<^verbatim>\<open>loadMoreZaps\<close>).
\<close>

definition in_window :: "TimeRange \<Rightarrow> date_range \<Rightarrow> nostr_event \<Rightarrow> bool" where
  "in_window timeRange dr receipt =
     (let isCustomRange = (timeRange = Custom) in
      if isCustomRange \<and> truthy (until dr)
      then created_at receipt \<ge> since dr \<and> created_at receipt \<le> the (until dr)
      else created_at receipt \<ge> since dr)"

definition filteredReceipts :: "TimeRange \<Rightarrow> date_range \<Rightarrow> nostr_event list \<Rightarrow> nostr_event list" where
  "filteredReceipts timeRange dr allReceipts = filter (in_window timeRange dr) allReceipts"

text \<open>
  \<^verbatim>\<open>[...prev.allReceiptsCache, ...validReceipts].sort(...)\<close>: the merge of one cycle's
  receipts into the cache.
\<close>

definition allReceipts_merge :: "nostr_event list \<Rightarrow> nostr_event list \<Rightarrow> nostr_event list" where
  "allReceipts_merge allReceiptsCache validReceipts =
     sort_newest_first (allReceiptsCache @ validReceipts)"

section \<open>Fan-out query over the default pool and the NIP-65 relays\<close>

text \<open>
  How a promise settles. A sub-query that times out or is aborted through the shared
  signal rejects like any other failure.
\<close>

datatype 'a settled = Fulfilled 'a | Rejected string

text \<open>
  The \<^verbatim>\<open>nostr\<close> object as the fan-out uses it: \<^verbatim>\<open>nostr.query\<close> answers with a promise,
  \<^verbatim>\<open>nostr.relay(url)\<close> either throws (\<open>None\<close>) or gives a relay whose \<^verbatim>\<open>query\<close> answers
  with a promise.
\<close>

record 'f nostr =
  query :: "'f \<Rightarrow> nostr_event list settled"
  relay :: "string \<Rightarrow> ('f \<Rightarrow> nostr_event list settled) option"

text \<open>
  A JavaScript \<^verbatim>\<open>Map\<close> as a list of entries in insertion order: \<^verbatim>\<open>set\<close> on a key that
  is present replaces the value in place, on a new key it appends.
\<close>

fun Map_set :: "('k \<times> 'v) list \<Rightarrow> 'k \<Rightarrow> 'v \<Rightarrow> ('k \<times> 'v) list" where
  "Map_set [] k v = [(k, v)]"
| "Map_set ((k', v') # m) k v =
     (if k' = k then (k, v) # m else (k', v') # Map_set m k v)"

definition new_Map :: "('k \<times> 'v) list \<Rightarrow> ('k \<times> 'v) list" where
  "new_Map entries = fold (\<lambda>(k, v) m. Map_set m k v) entries []"

definition Map_values :: "('k \<times> 'v) list \<Rightarrow> 'v list" where
  "Map_values m = map snd m"

fun is_fulfilled :: "'a settled \<Rightarrow> bool" where
  "is_fulfilled (Fulfilled v) = True"
| "is_fulfilled (Rejected e) = False"

fun settled_value :: "'a list settled \<Rightarrow> 'a list" where
  "settled_value (Fulfilled v) = v"
| "settled_value (Rejected e) = []"

text \<open>
  The sub-queries \<^verbatim>\<open>Promise.allSettled\<close> waits for, in source order: the default pool
  first, then one per NIP-65 relay url.
\<close>

definition fanout_results :: "'f nostr \<Rightarrow> 'f \<Rightarrow> string list \<Rightarrow> nostr_event list settled list" where
  "fanout_results nostr filters nip65RelayUrls =
     query nostr filters #
     map (\<lambda>url. case relay nostr url of
                   None \<Rightarrow> Fulfilled []
                 | Some relay_query \<Rightarrow> relay_query filters) nip65RelayUrls"

definition queryWithNip65Fanout :: "'f nostr \<Rightarrow> 'f \<Rightarrow> string list \<Rightarrow> nostr_event list" where
  "queryWithNip65Fanout nostr filters nip65RelayUrls =
     (let results = fanout_results nostr filters nip65RelayUrls;
          allEvents = concat (map settled_value (filter is_fulfilled results))
      in Map_values (new_Map (map (\<lambda>e. (ev_id e, e)) allEvents)))"

section \<open>Progressive loading of zap receipts\<close>

definition INITIAL_BATCH_SIZE :: nat where "INITIAL_BATCH_SIZE = 1000"
definition MIN_BATCH_SIZE :: nat where "MIN_BATCH_SIZE = 250"
definition MAX_BATCH_SIZE :: nat where "MAX_BATCH_SIZE = 2000"
definition MAX_CONSECUTIVE_FAILURES :: nat where "MAX_CONSECUTIVE_FAILURES = 3"
definition AUTO_LOAD_DELAY_MS :: nat where "AUTO_LOAD_DELAY_MS = 1000"
definition maxConsecutiveZeroResults :: nat where "maxConsecutiveZeroResults = 3"

record ZapLoadingState =
  receipts :: "nostr_event list"
  isLoading :: bool
  isComplete :: bool
  currentBatch :: nat
  totalFetched :: nat
  relayLimit :: "nat option"
  error :: "string option"
  autoLoadEnabled :: bool
  consecutiveFailures :: nat
  consecutiveZeroResults :: nat
  allReceiptsCache :: "nostr_event list"

definition initial_state :: ZapLoadingState where
  "initial_state =
     \<lparr>receipts = [], isLoading = False, isComplete = False, currentBatch = 0,
      totalFetched = 0, relayLimit = None, error = None, autoLoadEnabled = True,
      consecutiveFailures = 0, consecutiveZeroResults = 0, allReceiptsCache = []\<rparr>"

text \<open>
  What one instance of the hook holds besides its React state: the in-flight flag
  \<^verbatim>\<open>isLoadingRef\<close> and the module-level \<^verbatim>\<open>userZapCache\<close>. \<^verbatim>\<open>stateRef.current\<close> is
  the state itself: calls are taken one at a time, each on the state the previous left.
\<close>

record hook =
  state :: ZapLoadingState
  isLoadingRef :: bool
  userZapCache :: "string \<Rightarrow> nostr_event list option"

text \<open>\<^verbatim>\<open>targetPubkey || currentUser?.pubkey\<close>; the empty string is falsy.\<close>

fun truthy_str :: "string option \<Rightarrow> bool" where
  "truthy_str None = False"
| "truthy_str (Some s) = (s \<noteq> [])"


text \<open>\<^verbatim>\<open>limit || fallback\<close> on \<^verbatim>\<open>number | null\<close>.\<close>

fun or_default :: "nat option \<Rightarrow> nat \<Rightarrow> nat" where
  "or_default None d = d"
| "or_default (Some n) d = (if n = 0 then d else n)"

record zap_filter =
  kinds :: "nat list"
  p_tag :: "string list"
  limit :: nat
  filter_since :: "int option"
  filter_until :: "int option"

text \<open>The \<^verbatim>\<open>until\<close> a cycle asks for (\<^verbatim>\<open>currentUntil\<close>).\<close>

definition currentUntil :: "TimeRange \<Rightarrow> date_range \<Rightarrow> nostr_event list \<Rightarrow> int option" where
  "currentUntil timeRange dr cache =
     (case Math_min cache of
        None \<Rightarrow> until dr
      | Some oldestTimestamp \<Rightarrow>
          (let paginationUntil = oldestTimestamp - 1 in
           if timeRange = Custom \<and> truthy (until dr)
           then Some (min paginationUntil (the (until dr)))
           else Some paginationUntil))"

text \<open>The \<^verbatim>\<open>batchSize\<close> a cycle asks for.\<close>

definition requested_batchSize :: "ZapLoadingState \<Rightarrow> bool \<Rightarrow> nat" where
  "requested_batchSize currentState isAutomatic =
     (let batchSize = min (or_default (relayLimit currentState) INITIAL_BATCH_SIZE) MAX_BATCH_SIZE in
      if isAutomatic \<and> currentBatch currentState > 0
      then min batchSize (or_default (relayLimit currentState) MIN_BATCH_SIZE)
      else batchSize)"

definition build_filter :: "string \<Rightarrow> nat \<Rightarrow> int option \<Rightarrow> int \<Rightarrow> zap_filter" where
  "build_filter pk batchSize cu snc =
     \<lparr>kinds = [9735], p_tag = [pk], limit = batchSize,
      filter_since = (if snc > 0 then Some snc else None),
      filter_until = (if truthy cu then cu else None)\<rparr>"

text \<open>
  The state update after a cycle that fetched \<open>validReceipts\<close> with the requested
  \<open>batchSize\<close>; \<open>dr\<close> is what \<^verbatim>\<open>getDateRange\<close> answers inside the update.
\<close>

definition detectedLimit :: "nat \<Rightarrow> nat \<Rightarrow> nat option \<Rightarrow> nat option" where
  "detectedLimit n batchSize prevLimit =
     (if n < batchSize \<and> n > 0 then Some (max n MIN_BATCH_SIZE) else prevLimit)"

definition cycle_isComplete :: "TimeRange \<Rightarrow> date_range \<Rightarrow> nat \<Rightarrow> nostr_event list \<Rightarrow> bool" where
  "cycle_isComplete timeRange dr expectedBatchSize validReceipts =
     (if length validReceipts = 0 then since dr \<noteq> 0
      else
        (let isComplete = length validReceipts < expectedBatchSize in
         if \<not> isComplete \<and> timeRange \<noteq> Custom
         then (case Math_min validReceipts of
                 None \<Rightarrow> False
               | Some oldestNewReceipt \<Rightarrow> oldestNewReceipt \<le> since dr + 3600)
         else isComplete))"

definition state_after_success ::
  "TimeRange \<Rightarrow> date_range \<Rightarrow> nat \<Rightarrow> nostr_event list \<Rightarrow> ZapLoadingState \<Rightarrow> ZapLoadingState" where
  "state_after_success timeRange dr batchSize validReceipts prev =
     (let allReceipts = allReceipts_merge (allReceiptsCache prev) validReceipts;
          filtered = filteredReceipts timeRange dr allReceipts;
          detected = detectedLimit (length validReceipts) batchSize (relayLimit prev);
          expectedBatchSize = or_default detected batchSize
      in prev\<lparr>receipts := filtered,
              allReceiptsCache := allReceipts,
              isLoading := False,
              isComplete := cycle_isComplete timeRange dr expectedBatchSize validReceipts,
              currentBatch := currentBatch prev + 1,
              totalFetched := length filtered,
              relayLimit := detected,
              consecutiveFailures := 0,
              consecutiveZeroResults :=
                (if length validReceipts = 0 then consecutiveZeroResults prev + 1 else 0)\<rparr>)"

text \<open>The state update of the \<^verbatim>\<open>catch\<close> branch.\<close>

definition state_after_failure :: "string \<Rightarrow> ZapLoadingState \<Rightarrow> ZapLoadingState" where
  "state_after_failure msg prev =
     prev\<lparr>isLoading := False,
          error := Some msg,
          consecutiveFailures := consecutiveFailures prev + 1,
          autoLoadEnabled := (consecutiveFailures prev + 1 < MAX_CONSECUTIVE_FAILURES)\<rparr>"

text \<open>
  \<^verbatim>\<open>validReceipts.length > 0 && (validReceipts.length >= batchSize * 0.9 ||
  validReceipts.length >= 100)\<close>, the fraction cleared of its denominator.
\<close>

definition shouldContinueAutoLoad :: "nat \<Rightarrow> nat \<Rightarrow> bool" where
  "shouldContinueAutoLoad n batchSize = (n > 0 \<and> (10 * n \<ge> 9 * batchSize \<or> n \<ge> 100))"

text \<open>
  What the \<^verbatim>\<open>try\<close> block comes to: the events the awaited fan-out query resolved to,
  or the message of an exception raised inside the block.
\<close>

datatype try_outcome = Fetched "nostr_event list" | Thrown string

text \<open>
  The result of one call of \<^verbatim>\<open>loadMoreZaps\<close>: the hook afterwards, the filters handed
  to the fan-out query (\<open>None\<close> when the call returned before the \<^verbatim>\<open>try\<close> block), and
  whether a further automatic batch was scheduled.
\<close>

record load_result =
  after :: hook
  issued :: "zap_filter list option"
  autoContinue :: bool

definition loadMoreZaps ::
  "string option \<Rightarrow> TimeRange \<Rightarrow> (nostr_event \<Rightarrow> bool) \<Rightarrow> date_range \<Rightarrow> date_range \<Rightarrow>
   (zap_filter list \<Rightarrow> try_outcome) \<Rightarrow> bool \<Rightarrow> hook \<Rightarrow> load_result" where
  "loadMoreZaps hookPubkey timeRange isValidZapReceipt dr dr' fetch isAutomatic h =
     (let currentState = state h in
      if \<not> truthy_str hookPubkey \<or> isLoadingRef h \<or> isComplete currentState
      then \<lparr>after = h, issued = None, autoContinue = False\<rparr>
      else if isAutomatic \<and>
              (\<not> autoLoadEnabled currentState \<or>
               consecutiveFailures currentState \<ge> MAX_CONSECUTIVE_FAILURES \<or>
               consecutiveZeroResults currentState \<ge> maxConsecutiveZeroResults)
      then \<lparr>after = h, issued = None, autoContinue = False\<rparr>
      else
        (let pk = the hookPubkey;
             started = currentState\<lparr>isLoading := True, error := None\<rparr>;
             cu = currentUntil timeRange dr (allReceiptsCache currentState);
             batchSize = requested_batchSize currentState isAutomatic;
             flt = build_filter pk batchSize cu (since dr)
         in case fetch [flt] of
              Thrown msg \<Rightarrow>
                \<lparr>after = h\<lparr>state := state_after_failure msg started, isLoadingRef := False\<rparr>,
                 issued = Some [flt], autoContinue = False\<rparr>
            | Fetched events \<Rightarrow>
                (let validReceipts = sort_newest_first (filter isValidZapReceipt events);
                     s' = state_after_success timeRange dr' batchSize validReceipts started
                 in \<lparr>after = h\<lparr>state := s',
                                isLoadingRef := False,
                                userZapCache := (userZapCache h)(pk \<mapsto> allReceiptsCache s')\<rparr>,
                     issued = Some [flt],
                     autoContinue =
                       (isAutomatic \<and> shouldContinueAutoLoad (length validReceipts) batchSize)\<rparr>)))"

text \<open>The fetch of the source: the fan-out query over the pool and the read relays.\<close>

definition fanout_fetch :: "zap_filter list nostr \<Rightarrow> string list \<Rightarrow> zap_filter list \<Rightarrow> try_outcome" where
  "fanout_fetch nostr nip65ReadRelays filters =
     Fetched (queryWithNip65Fanout nostr filters nip65ReadRelays)"

subsection \<open>Effects and callbacks around the loader\<close>

text \<open>\<^verbatim>\<open>userZapCache.get(pubkey) || []\<close>\<close>

definition cache_entry :: "hook \<Rightarrow> string \<Rightarrow> nostr_event list" where
  "cache_entry h pk = (case userZapCache h pk of None \<Rightarrow> [] | Some rs \<Rightarrow> rs)"

text \<open>\<^verbatim>\<open>cache.length > 0 ? Math.min(...cache.map(r => r.created_at)) : 0\<close>\<close>

definition oldestCachedTimestamp :: "nostr_event list \<Rightarrow> int" where
  "oldestCachedTimestamp cache = (case Math_min cache of None \<Rightarrow> 0 | Some m \<Rightarrow> m)"

text \<open>
  The effect on \<^verbatim>\<open>[pubkey, timeRange, customRange]\<close>: initialise the state from the
  global cache and filter it by the window.
\<close>

definition initFromCache :: "string option \<Rightarrow> TimeRange \<Rightarrow> date_range \<Rightarrow> hook \<Rightarrow> hook" where
  "initFromCache hookPubkey timeRange dr h =
     (if \<not> truthy_str hookPubkey then h
      else
        (let userCache = cache_entry h (the hookPubkey);
             filtered = filteredReceipts timeRange dr userCache;
             hasCompleteCoverage =
               (length userCache > 0 \<and> oldestCachedTimestamp userCache \<le> since dr)
         in h\<lparr>state := (state h)\<lparr>receipts := filtered,
                                  allReceiptsCache := userCache,
                                  totalFetched := length filtered,
                                  isComplete := hasCompleteCoverage,
                                  error := None\<rparr>\<rparr>))"


definition toggleAutoLoad :: "hook \<Rightarrow> hook" where
  "toggleAutoLoad h = h\<lparr>state := (state h)\<lparr>autoLoadEnabled := \<not> autoLoadEnabled (state h)\<rparr>\<rparr>"

definition restartAutoLoad :: "hook \<Rightarrow> hook" where
  "restartAutoLoad h =
     h\<lparr>state := (state h)\<lparr>autoLoadEnabled := True,
                            consecutiveFailures := 0,
                            consecutiveZeroResults := 0\<rparr>\<rparr>"

text \<open>Whether \<^verbatim>\<open>restartAutoLoad\<close> also schedules an automatic load.\<close>

definition restartAutoLoad_schedules :: "hook \<Rightarrow> bool" where
  "restartAutoLoad_schedules h = (\<not> isLoading (state h) \<and> \<not> isComplete (state h))"

text \<open>
  \<^verbatim>\<open>clearZapCaches\<close>, as far as the receipts go (the profile cache it clears as well is
  not part of this model).
\<close>

definition clearZapCaches :: "hook \<Rightarrow> hook" where
  "clearZapCaches h = h\<lparr>userZapCache := (\<lambda>pk. None)\<rparr>"



subsection \<open>Runs of one hook instance for one subject\<close>

text \<open>
  What can happen to the hook while the subject stays the same: a call of
  \<^verbatim>\<open>loadMoreZaps\<close> (manual, or automatic from a timer) with the window then selected and
  what its \<^verbatim>\<open>try\<close> block comes to, a change of window, the two auto-load callbacks, and
  the clearing of the module-level caches.
\<close>

datatype action =
    LoadMore bool TimeRange date_range date_range try_outcome
  | WindowChanged TimeRange date_range
  | ToggleAutoLoad
  | RestartAutoLoad
  | ClearZapCaches

text \<open>One action: the hook afterwards and the filters of the query it issued, if any.\<close>

fun step ::
  "string option \<Rightarrow> (nostr_event \<Rightarrow> bool) \<Rightarrow> action \<Rightarrow> hook \<Rightarrow> hook \<times> zap_filter list" where
  "step hookPubkey isValidZapReceipt (LoadMore isAutomatic timeRange dr dr' outcome) h =
     (let r = loadMoreZaps hookPubkey timeRange isValidZapReceipt dr dr' (\<lambda>filters. outcome)
                isAutomatic h
      in (after r, case issued r of None \<Rightarrow> [] | Some filters \<Rightarrow> filters))"
| "step hookPubkey isValidZapReceipt (WindowChanged timeRange dr) h =
     (initFromCache hookPubkey timeRange dr h, [])"
| "step hookPubkey isValidZapReceipt ToggleAutoLoad h = (toggleAutoLoad h, [])"
| "step hookPubkey isValidZapReceipt RestartAutoLoad h = (restartAutoLoad h, [])"
| "step hookPubkey isValidZapReceipt ClearZapCaches h = (clearZapCaches h, [])"

fun run ::
  "string option \<Rightarrow> (nostr_event \<Rightarrow> bool) \<Rightarrow> action list \<Rightarrow> hook \<Rightarrow> hook \<times> zap_filter list" where
  "run hookPubkey isValidZapReceipt [] h = (h, [])"
| "run hookPubkey isValidZapReceipt (a # as) h =
     (let (h', qs) = step hookPubkey isValidZapReceipt a h;
          (h'', qs') = run hookPubkey isValidZapReceipt as h'
      in (h'', qs @ qs'))"

text \<open>The receipts the fetch cycles of a run hand to the merge, in order.\<close>

fun fetched_receipts :: "(nostr_event \<Rightarrow> bool) \<Rightarrow> action list \<Rightarrow> nostr_event list" where
  "fetched_receipts isValidZapReceipt [] = []"
| "fetched_receipts isValidZapReceipt (LoadMore isAutomatic timeRange dr dr' (Fetched events) # as) =
     filter isValidZapReceipt events @ fetched_receipts isValidZapReceipt as"
| "fetched_receipts isValidZapReceipt (a # as) = fetched_receipts isValidZapReceipt as"

fun is_fetch_cycle :: "action \<Rightarrow> bool" where
  "is_fetch_cycle (LoadMore isAutomatic timeRange dr dr' (Fetched events)) = True"
| "is_fetch_cycle a = False"

section \<open>The analytics hook\<close>

















section \<open>The worker that publishes scheduled posts\<close>

datatype post_status = Pending | Published | Failed

text \<open>
  A database field that holds JSON: \<^verbatim>\<open>null\<close>, a string still to be parsed, or a value.
\<close>

datatype 'a json_field = JNull | JText string | JValue 'a

text \<open>What the relays field parses to: an array of urls, or something without \<^verbatim>\<open>map\<close>.\<close>

datatype relays_value = UrlArray "string list" | NotArray

record 'e scheduled_post =
  post_id :: string
  signed_event :: "'e json_field"
  relays :: "relays_value json_field"
  status :: post_status
  published_at :: "string option"
  error_message :: "string option"
  retry_count :: nat

text \<open>
  The table \<^verbatim>\<open>scheduled_posts\<close> as the list of its rows; an update with
  \<^verbatim>\<open>.eq('id', postId)\<close> changes every row with that id. The database answers every
  update.
\<close>

definition update_eq_id ::
  "('e scheduled_post \<Rightarrow> 'e scheduled_post) \<Rightarrow> string \<Rightarrow> 'e scheduled_post list \<Rightarrow> 'e scheduled_post list" where
  "update_eq_id f postId table = map (\<lambda>row. if post_id row = postId then f row else row) table"

definition updatePostStatus ::
  "string \<Rightarrow> 'e scheduled_post list \<Rightarrow> string \<Rightarrow> post_status \<Rightarrow> string \<Rightarrow> 'e scheduled_post list" where
  "updatePostStatus now table postId st errorMessage =
     update_eq_id
       (\<lambda>row. if st = Published
               then row\<lparr>status := st, error_message := Some errorMessage, published_at := Some now\<rparr>
               else row\<lparr>status := st, error_message := Some errorMessage\<rparr>)
       postId table"

text \<open>Decimal digits of a number, as a template literal prints it.\<close>

fun show_nat :: "nat \<Rightarrow> string" where
  "show_nat n =
     (if n < 10 then [''0123456789'' ! n]
      else show_nat (n div 10) @ [''0123456789'' ! (n mod 10)])"

declare show_nat.simps [simp del]

text \<open>What \<^verbatim>\<open>processPost\<close> answers and does.\<close>

record 'e process_result =
  table_after :: "'e scheduled_post list"
  connections :: "string list"
  success :: bool
  result_error :: "string option"
  publishedToRelays :: "nat option"

definition post_failed ::
  "string \<Rightarrow> 'e scheduled_post list \<Rightarrow> string \<Rightarrow> string list \<Rightarrow> string \<Rightarrow> 'e process_result" where
  "post_failed now table postId opened errorMessage =
     \<lparr>table_after = updatePostStatus now table postId Failed errorMessage,
      connections = opened, success = False, result_error = Some errorMessage,
      publishedToRelays = None\<rparr>"

text \<open>
  The message of the last relay error. The relays are taken to settle in the order of
  the list; only which message is the last depends on that order.
\<close>

fun lastError_of :: "(string \<times> unit settled) list \<Rightarrow> string option" where
  "lastError_of [] = None"
| "lastError_of ((url, Fulfilled v) # rs) = lastError_of rs"
| "lastError_of ((url, Rejected msg) # rs) =
     (case lastError_of rs of None \<Rightarrow> Some msg | Some later \<Rightarrow> Some later)"

text \<open>
  \<^verbatim>\<open>processPost\<close>, in the three parts of its body. \<open>parse_event\<close> and \<open>parse_relays\<close>
  are \<^verbatim>\<open>JSON.parse\<close> on the two fields (\<open>Inl\<close> the message of the error it throws),
  \<open>publishToRelay\<close> is how the connection to a relay ends: resolved, or rejected with a
  message.

  First the signed event: a falsy field and a string that does not parse each end the
  call with the row marked failed; \<open>Inl\<close> is the error message stored.
\<close>

definition parse_signed_event :: "(string \<Rightarrow> string + 'e) \<Rightarrow> 'e json_field \<Rightarrow> string + 'e" where
  "parse_signed_event parse_event field =
     (case field of
        JNull \<Rightarrow> Inl ''Signed event is null''
      | JText s \<Rightarrow>
          (if s = [] then Inl ''Signed event is null''
           else (case parse_event s of
                   Inl parseError \<Rightarrow> Inl (''Failed to parse signed event: '' @ parseError)
                 | Inr event \<Rightarrow> Inr event))
      | JValue event \<Rightarrow> Inr event)"

text \<open>
  Then the relays: a string is parsed, anything else is taken as it is. \<open>Inl\<close> is the
  message of the exception that reaches the outer \<^verbatim>\<open>catch\<close>: the one \<^verbatim>\<open>JSON.parse\<close>
  throws, or the \<^verbatim>\<open>TypeError\<close> of \<^verbatim>\<open>relayUrls.map\<close> on a value that is no array.
\<close>

definition parse_relay_urls ::
  "(string \<Rightarrow> string + relays_value) \<Rightarrow> relays_value json_field \<Rightarrow> string + string list" where
  "parse_relay_urls parse_relays field =
     (case (case field of
              JNull \<Rightarrow> Inl ''Cannot read properties of null''
            | JText s \<Rightarrow> parse_relays s
            | JValue v \<Rightarrow> Inr v) of
        Inl msg \<Rightarrow> Inl msg
      | Inr NotArray \<Rightarrow> Inl ''relayUrls.map is not a function''
      | Inr (UrlArray relayUrls) \<Rightarrow> Inr relayUrls)"

text \<open>Last the publication to every relay and the update of the row.\<close>

definition publish_to_relays ::
  "(string \<Rightarrow> 'e \<Rightarrow> unit settled) \<Rightarrow> string \<Rightarrow> 'e scheduled_post list \<Rightarrow> string \<Rightarrow> 'e \<Rightarrow>
   string list \<Rightarrow> 'e process_result" where
  "publish_to_relays publishToRelay now table postId event relayUrls =
     (let relayResults = map (\<lambda>relayURL. (relayURL, publishToRelay relayURL event)) relayUrls;
          successCount = length (filter (\<lambda>(relayURL, r). is_fulfilled r) relayResults);
          lastError = lastError_of relayResults
      in if successCount > 0
         then
           (let errorMessage =
                  (if lastError \<noteq> None \<and> successCount < length relayUrls
                   then Some (''Partially published ('' @ show_nat successCount @ ''/'' @
                              show_nat (length relayUrls) @ '' relays). Last error: '' @
                              the lastError)
                   else None)
            in \<lparr>table_after =
                   update_eq_id
                     (\<lambda>row. row\<lparr>status := Published, published_at := Some now,
                                 error_message := errorMessage\<rparr>)
                     postId table,
                 connections = relayUrls, success = True,
                 result_error = errorMessage,
                 publishedToRelays = Some successCount\<rparr>)
         else
           post_failed now table postId relayUrls
             (''Failed to publish to any relay. Last error: '' @
              (case lastError of
                 None \<Rightarrow> ''Unknown error''
               | Some msg \<Rightarrow> if msg = [] then ''Unknown error'' else msg)))"

definition processPost ::
  "(string \<Rightarrow> string + 'e) \<Rightarrow> (string \<Rightarrow> string + relays_value) \<Rightarrow>
   (string \<Rightarrow> 'e \<Rightarrow> unit settled) \<Rightarrow> string \<Rightarrow> 'e scheduled_post list \<Rightarrow> 'e scheduled_post \<Rightarrow>
   'e process_result" where
  "processPost parse_event parse_relays publishToRelay now table post =
     (case parse_signed_event parse_event (signed_event post) of
        Inl errorMessage \<Rightarrow> post_failed now table (post_id post) [] errorMessage
      | Inr event \<Rightarrow>
          (case parse_relay_urls parse_relays (relays post) of
             Inl msg \<Rightarrow> post_failed now table (post_id post) [] (''Processing error: '' @ msg)
           | Inr relayUrls \<Rightarrow>
               publish_to_relays publishToRelay now table (post_id post) event relayUrls))"

section \<open>Notions used in the statements\<close>

text \<open>
  No receipt id occurs twice among the cached receipts of the state, nor among the
  subject's entry of the global cache, each taken together with the receipts \<open>rest\<close>
  still to come.
\<close>

definition caches_fresh :: "string option \<Rightarrow> hook \<Rightarrow> nostr_event list \<Rightarrow> bool" where
  "caches_fresh pk h rest \<longleftrightarrow>
     distinct (map ev_id (allReceiptsCache (state h) @ rest)) \<and>
     distinct (map ev_id (cache_entry h (the pk) @ rest))"

text \<open>The relay limit of a state is detected and lies between the minimum and \<open>L\<close>.\<close>

definition limit_within :: "nat \<Rightarrow> ZapLoadingState \<Rightarrow> bool" where
  "limit_within L s \<longleftrightarrow> (\<exists>l. relayLimit s = Some l \<and> MIN_BATCH_SIZE \<le> l \<and> l \<le> L)"

text \<open>The events the fan-out deduplicates (\<^verbatim>\<open>allEvents\<close>), in source order.\<close>

definition fulfilled_events :: "'f nostr \<Rightarrow> 'f \<Rightarrow> string list \<Rightarrow> nostr_event list" where
  "fulfilled_events nostr filters urls =
     concat (map settled_value (filter is_fulfilled (fanout_results nostr filters urls)))"

text \<open>
  What a sub-query contributes to the union: its events when it fulfils, nothing when it
  rejects; for a relay url, nothing as well when the relay cannot be constructed.
\<close>

definition contributed :: "nostr_event list settled \<Rightarrow> nostr_event set" where
  "contributed r = (case r of Fulfilled events \<Rightarrow> set events | Rejected msg \<Rightarrow> {})"

definition relay_contributed :: "'f nostr \<Rightarrow> 'f \<Rightarrow> string \<Rightarrow> nostr_event set" where
  "relay_contributed nostr filters url =
     (case relay nostr url of None \<Rightarrow> {} | Some relay_query \<Rightarrow> contributed (relay_query filters))"

section \<open>Concrete inputs\<close>

text \<open>Receipts, windows and runs on which the theorems are evaluated.\<close>

definition receipt_at :: "string \<Rightarrow> int \<Rightarrow> nostr_event" where
  "receipt_at i t =
     \<lparr>ev_id = i, pubkey = ''wallet'', created_at = t, kind = 9735,
      tags = [], content = [], sig = []\<rparr>"

definition any_receipt :: "nostr_event \<Rightarrow> bool" where
  "any_receipt e = True"

definition fresh_hook :: hook where
  "fresh_hook = \<lparr>state = initial_state, isLoadingRef = False, userZapCache = (\<lambda>pk. None)\<rparr>"

text \<open>Windows seen from the second 1700000000: the last 7 and the last 30 days.\<close>

definition last_7d :: date_range where
  "last_7d = \<lparr>since = 1699395200, until = Some 1700000000\<rparr>"

definition last_30d :: date_range where
  "last_30d = \<lparr>since = 1697408000, until = Some 1700000000\<rparr>"

text \<open>
  Two fetch cycles with a change to the wider window between them. In the first run
  the second cycle returns receipt \<open>b\<close> again, in the second run it does not.
\<close>

definition overlapping_run :: "action list" where
  "overlapping_run =
     [LoadMore False (Preset ''7d'') last_7d last_7d
        (Fetched [receipt_at ''a'' 1699913600, receipt_at ''b'' 1699827200]),
      WindowChanged (Preset ''30d'') last_30d,
      LoadMore False (Preset ''30d'') last_30d last_30d
        (Fetched [receipt_at ''b'' 1699827200, receipt_at ''c'' 1699136000])]"

definition disjoint_run :: "action list" where
  "disjoint_run =
     [LoadMore False (Preset ''7d'') last_7d last_7d
        (Fetched [receipt_at ''a'' 1699913600, receipt_at ''b'' 1699827200]),
      WindowChanged (Preset ''30d'') last_30d,
      LoadMore False (Preset ''30d'') last_30d last_30d
        (Fetched [receipt_at ''c'' 1699136000])]"

text \<open>
  A receipt stamped a minute after the window was computed, and a custom window.
\<close>

definition late_receipt :: nostr_event where
  "late_receipt = receipt_at ''late'' 1700000060"

definition custom_window :: date_range where
  "custom_window = \<lparr>since = 1699000000, until = Some 1699500000\<rparr>"

text \<open>What the \<^verbatim>\<open>try\<close> block of a cycle may come to, and the filter of a query.\<close>

definition fetch_a_b :: "zap_filter list \<Rightarrow> try_outcome" where
  "fetch_a_b filters = Fetched [receipt_at ''a'' 1699913600, receipt_at ''b'' 1699827200]"


definition subject_filter :: "nat \<Rightarrow> int option \<Rightarrow> int option \<Rightarrow> zap_filter" where
  "subject_filter n snc unt =
     \<lparr>kinds = [9735], p_tag = [''subject''], limit = n, filter_since = snc, filter_until = unt\<rparr>"

text \<open>A change to the 30-day window followed by an automatic cycle.\<close>

definition narrower_run :: "action list" where
  "narrower_run =
     [WindowChanged (Preset ''30d'') last_30d,
      LoadMore True (Preset ''30d'') last_30d last_30d (Fetched [receipt_at ''c'' 1699136000])]"







text \<open>
  Three sources: the pool answers with \<open>a\<close> and \<open>b\<close>, one relay times out, another
  answers with \<open>c\<close>; any other url has no relay.
\<close>

definition pool_query :: "zap_filter list \<Rightarrow> nostr_event list settled" where
  "pool_query filters = Fulfilled [receipt_at ''a'' 1699913600, receipt_at ''b'' 1699827200]"

definition down_query :: "zap_filter list \<Rightarrow> nostr_event list settled" where
  "down_query filters = Rejected ''The operation timed out''"

definition other_query :: "zap_filter list \<Rightarrow> nostr_event list settled" where
  "other_query filters = Fulfilled [receipt_at ''c'' 1699136000]"

definition relay_of :: "string \<Rightarrow> (zap_filter list \<Rightarrow> nostr_event list settled) option" where
  "relay_of url =
     (if url = ''wss://down.example'' then Some down_query
      else if url = ''wss://other.example'' then Some other_query
      else None)"

definition three_sources :: "zap_filter list nostr" where
  "three_sources = \<lparr>query = pool_query, relay = relay_of\<rparr>"






text \<open>
  A worker whose \<^verbatim>\<open>JSON.parse\<close> accepts one text, whose relay \<open>down\<close> times out and
  whose other relays accept; a post due for two relays, and a table with it and another
  post.
\<close>

definition parse_ok :: "string \<Rightarrow> string + nostr_event" where
  "parse_ok s = (if s = ''{...}'' then Inr (receipt_at ''note'' 1699999000)
                 else Inl ''Unexpected token'')"

definition parse_urls :: "string \<Rightarrow> string + relays_value" where
  "parse_urls s = Inl ''Unexpected token''"

definition publish_one_down :: "string \<Rightarrow> nostr_event \<Rightarrow> unit settled" where
  "publish_one_down relayURL event =
     (if relayURL = ''wss://down.example'' then Rejected ''Timeout connecting to relay''
      else Fulfilled ())"

definition due_post :: "nostr_event json_field \<Rightarrow> nostr_event scheduled_post" where
  "due_post field =
     \<lparr>post_id = ''p1'', signed_event = field,
      relays = JValue (UrlArray [''wss://up.example'', ''wss://down.example'']),
      status = Pending, published_at = None, error_message = None, retry_count = 0\<rparr>"

definition other_post :: "nostr_event scheduled_post" where
  "other_post =
     \<lparr>post_id = ''p2'', signed_event = JNull, relays = JNull,
      status = Pending, published_at = None, error_message = None, retry_count = 0\<rparr>"

definition one_post_table :: "nostr_event json_field \<Rightarrow> nostr_event scheduled_post list" where
  "one_post_table field = [other_post, due_post field]"

section \<open>Basic facts\<close>

lemmas loader_defs =
  loadMoreZaps_def state_after_success_def state_after_failure_def
  allReceipts_merge_def sort_newest_first_def filteredReceipts_def in_window_def
  detectedLimit_def cycle_isComplete_def requested_batchSize_def build_filter_def
  currentUntil_def initFromCache_def cache_entry_def oldestCachedTimestamp_def
  shouldContinueAutoLoad_def toggleAutoLoad_def restartAutoLoad_def clearZapCaches_def
  INITIAL_BATCH_SIZE_def MIN_BATCH_SIZE_def MAX_BATCH_SIZE_def MAX_CONSECUTIVE_FAILURES_def
  maxConsecutiveZeroResults_def AUTO_LOAD_DELAY_MS_def Let_def

lemmas input_defs =
  receipt_at_def any_receipt_def fresh_hook_def initial_state_def last_7d_def last_30d_def
  overlapping_run_def disjoint_run_def

subsection \<open>The oldest timestamp, the sort and the merge\<close>

lemma Math_min_None: "Math_min rs = None \<longleftrightarrow> rs = []"
  by (cases rs) simp_all

lemma fold_min_Min:
  "fold (\<lambda>x m. min m (created_at x)) rs a = Min (insert a (created_at ` set rs))"
proof (induction rs arbitrary: a)
  case Nil
  show ?case by simp
next
  case (Cons r rs)
  have "Min (insert (min a (created_at r)) (created_at ` set rs)) =
        Min (insert a (insert (created_at r) (created_at ` set rs)))"
    by (cases "set rs = {}") (simp_all add: min.assoc Min_insert2 min.commute min.left_commute)
  then show ?case using Cons.IH[of "min a (created_at r)"] by simp
qed

lemma Math_min_Some: "Math_min rs = Some m \<Longrightarrow> m = Min (created_at ` set rs)"
  by (cases rs) (simp_all add: fold_min_Min)


lemma set_merge: "set (allReceipts_merge c v) = set c \<union> set v"
  by (simp add: allReceipts_merge_def sort_newest_first_def)

lemma set_sort_newest_first: "set (sort_newest_first v) = set v"
  by (simp add: sort_newest_first_def)

lemma distinct_ids_sort_newest_first:
  "distinct (map ev_id (sort_newest_first v)) \<longleftrightarrow> distinct (map ev_id v)"
  unfolding sort_newest_first_def by (simp only: distinct_map distinct_sort set_sort)

lemma distinct_ids_merge:
  "distinct (map ev_id (allReceipts_merge c v)) \<longleftrightarrow> distinct (map ev_id (c @ v))"
  unfolding allReceipts_merge_def sort_newest_first_def
  by (simp only: distinct_map distinct_sort set_sort)

subsection \<open>Runs and the two caches\<close>

lemma fst_run_Cons:
  "fst (run pk isValid (a # as) h) = fst (run pk isValid as (fst (step pk isValid a h)))"
  by (simp add: case_prod_beta)

lemma snd_run_Cons:
  "snd (run pk isValid (a # as) h) =
     snd (step pk isValid a h) @ snd (run pk isValid as (fst (step pk isValid a h)))"
  by (simp add: case_prod_beta)

lemma distinct_ids_fresh:
  assumes "distinct (map ev_id (c @ v @ rest))"
  shows "distinct (map ev_id (c @ rest))"
    and "distinct (map ev_id (allReceipts_merge c (sort_newest_first v) @ rest))"
proof -
  from assms have dc: "distinct (map ev_id c)" and dv: "distinct (map ev_id v)"
    and dr: "distinct (map ev_id rest)"
    and cv: "ev_id ` set c \<inter> ev_id ` set v = {}"
    and cr: "ev_id ` set c \<inter> ev_id ` set rest = {}"
    and vr: "ev_id ` set v \<inter> ev_id ` set rest = {}"
    by (simp_all add: Int_Un_distrib)
  show "distinct (map ev_id (c @ rest))" using dc dr cr by simp
  have m: "distinct (map ev_id (allReceipts_merge c (sort_newest_first v)))"
    using dc dv cv
    by (simp add: distinct_ids_merge distinct_ids_sort_newest_first set_sort_newest_first)
  have "ev_id ` set (allReceipts_merge c (sort_newest_first v)) \<inter> ev_id ` set rest = {}"
    using cr vr by (simp add: set_merge set_sort_newest_first image_Un Int_Un_distrib2)
  with m dr show "distinct (map ev_id (allReceipts_merge c (sort_newest_first v) @ rest))"
    by simp
qed

lemma fst_step_LoadMore:
  "fst (step pk isValid (LoadMore auto tr dr dr' outcome) h) =
     after (loadMoreZaps pk tr isValid dr dr' (\<lambda>fs. outcome) auto h)"
  by (simp add: Let_def)

lemma snd_step_LoadMore:
  "snd (step pk isValid (LoadMore auto tr dr dr' outcome) h) =
     (case issued (loadMoreZaps pk tr isValid dr dr' (\<lambda>fs. outcome) auto h) of
        None \<Rightarrow> [] | Some filters \<Rightarrow> filters)"
  by (simp add: Let_def)

text \<open>What a call of \<^verbatim>\<open>loadMoreZaps\<close> does to the two caches.\<close>

lemma loadMoreZaps_fetched_caches:
  fixes h pk tr isValid dr dr' evs auto
  defines "r \<equiv> after (loadMoreZaps pk tr isValid dr dr' (\<lambda>fs. Fetched evs) auto h)"
  shows "(allReceiptsCache (state r) = allReceiptsCache (state h) \<and>
          cache_entry r (the pk) = cache_entry h (the pk))
       \<or> (allReceiptsCache (state r) =
            allReceipts_merge (allReceiptsCache (state h)) (sort_newest_first (filter isValid evs)) \<and>
          cache_entry r (the pk) = allReceiptsCache (state r))"
  unfolding r_def by (simp add: loadMoreZaps_def state_after_success_def cache_entry_def Let_def)

lemma loadMoreZaps_thrown_caches:
  "allReceiptsCache (state (after (loadMoreZaps pk tr isValid dr dr' (\<lambda>fs. Thrown msg) auto h)))
     = allReceiptsCache (state h) \<and>
   cache_entry (after (loadMoreZaps pk tr isValid dr dr' (\<lambda>fs. Thrown msg) auto h)) k
     = cache_entry h k"
  by (simp add: loadMoreZaps_def state_after_failure_def cache_entry_def Let_def)

lemma caches_fresh_step:
  assumes "caches_fresh pk h (fetched_receipts isValid (a # as))"
  shows "caches_fresh pk (fst (step pk isValid a h)) (fetched_receipts isValid as)"
proof (cases a)
  case (LoadMore auto tr dr dr' outcome)
  show ?thesis
  proof (cases outcome)
    case (Fetched evs)
    let ?r = "after (loadMoreZaps pk tr isValid dr dr' (\<lambda>fs. Fetched evs) auto h)"
    let ?rest = "fetched_receipts isValid as"
    have d1: "distinct (map ev_id (allReceiptsCache (state h) @ filter isValid evs @ ?rest))"
      and d2: "distinct (map ev_id (cache_entry h (the pk) @ filter isValid evs @ ?rest))"
      using assms LoadMore Fetched by (simp_all add: caches_fresh_def)
    have "caches_fresh pk ?r ?rest"
      using loadMoreZaps_fetched_caches[of pk tr isValid dr dr' evs auto h]
        distinct_ids_fresh[OF d1] distinct_ids_fresh(1)[OF d2]
      by (elim disjE) (simp_all add: caches_fresh_def)
    then show ?thesis using LoadMore Fetched by (simp only: fst_step_LoadMore)
  next
    case (Thrown msg)
    then show ?thesis using assms LoadMore
      by (simp add: caches_fresh_def loadMoreZaps_thrown_caches Let_def)
  qed
next
  case (WindowChanged tr dr)
  then show ?thesis using assms
    by (simp add: caches_fresh_def initFromCache_def Let_def cache_entry_def)
next
  case ToggleAutoLoad
  then show ?thesis using assms by (simp add: caches_fresh_def toggleAutoLoad_def cache_entry_def)
next
  case RestartAutoLoad
  then show ?thesis using assms by (simp add: caches_fresh_def restartAutoLoad_def cache_entry_def)
next
  case ClearZapCaches
  then show ?thesis using assms
    by (simp add: caches_fresh_def clearZapCaches_def cache_entry_def)
qed

lemma caches_fresh_run:
  "caches_fresh pk h (fetched_receipts isValid acts) \<Longrightarrow>
   caches_fresh pk (fst (run pk isValid acts h)) []"
proof (induction acts arbitrary: h)
  case Nil
  then show ?case by simp
next
  case (Cons a acts)
  from caches_fresh_step[OF Cons.prems] Cons.IH show ?case
    by (simp only: fst_run_Cons)
qed

subsection \<open>One call of the loader\<close>

lemma length_sort_newest_first: "length (sort_newest_first v) = length v"
  by (simp add: sort_newest_first_def)

lemma cycle_isComplete_iff:
  "cycle_isComplete timeRange dr (or_default (detectedLimit (length v) b lim) b) v \<longleftrightarrow>
     (length v = 0 \<and> since dr \<noteq> 0) \<or>
     (length v \<noteq> 0 \<and> length v < (case detectedLimit (length v) b lim of None \<Rightarrow> b | Some l \<Rightarrow> l)) \<or>
     (length v \<noteq> 0 \<and> timeRange \<noteq> Custom \<and> Min (created_at ` set v) \<le> since dr + 3600)"
proof (cases "v = []")
  case True
  then show ?thesis by (simp add: cycle_isComplete_def)
next
  case False
  then obtain m where m: "Math_min v = Some m" by (cases v) auto
  have mm: "m = Min (created_at ` set v)" using Math_min_Some[OF m] .
  have e: "(length v < or_default (detectedLimit (length v) b lim) b)
         = (length v < (case detectedLimit (length v) b lim of None \<Rightarrow> b | Some l \<Rightarrow> l))"
    using False by (cases lim) (auto simp: detectedLimit_def MIN_BATCH_SIZE_def)
  show ?thesis using False m mm e
    by (auto simp: cycle_isComplete_def Let_def)
qed

lemma loadMoreZaps_issued:
  assumes "issued (loadMoreZaps pk tr v dr dr' fetch auto h) = Some filters"
  shows "filters = [build_filter (the pk) (requested_batchSize (state h) auto)
                      (currentUntil tr dr (allReceiptsCache (state h))) (since dr)]"
    and "truthy_str pk" and "\<not> isLoadingRef h" and "\<not> isComplete (state h)"
    and "auto \<Longrightarrow> autoLoadEnabled (state h) \<and>
           consecutiveFailures (state h) < MAX_CONSECUTIVE_FAILURES \<and>
           consecutiveZeroResults (state h) < maxConsecutiveZeroResults"
  using assms
  by (auto simp: loadMoreZaps_def Let_def split: if_splits try_outcome.splits)


lemma loadMoreZaps_fetched_state:
  assumes "issued (loadMoreZaps pk tr v dr dr' fetch auto h) = Some filters"
    and "fetch filters = Fetched evs"
  shows "state (after (loadMoreZaps pk tr v dr dr' fetch auto h)) =
           state_after_success tr dr' (requested_batchSize (state h) auto)
             (sort_newest_first (filter v evs)) ((state h)\<lparr>isLoading := True, error := None\<rparr>)"
    and "isLoadingRef (after (loadMoreZaps pk tr v dr dr' fetch auto h)) = False"
  using assms
  by (auto simp: loadMoreZaps_def Let_def split: if_splits try_outcome.splits)

lemma loadMoreZaps_thrown_state:
  assumes "issued (loadMoreZaps pk tr v dr dr' fetch auto h) = Some filters"
    and "fetch filters = Thrown msg"
  shows "state (after (loadMoreZaps pk tr v dr dr' fetch auto h)) =
           state_after_failure msg ((state h)\<lparr>isLoading := True, error := None\<rparr>)"
    and "isLoadingRef (after (loadMoreZaps pk tr v dr dr' fetch auto h)) = False"
  using assms
  by (auto simp: loadMoreZaps_def Let_def split: if_splits try_outcome.splits)

subsection \<open>The requested batch size\<close>

lemma requested_batchSize_le_MAX: "requested_batchSize s auto \<le> MAX_BATCH_SIZE"
  by (auto simp: requested_batchSize_def Let_def intro: min.coboundedI1)

lemma requested_batchSize_le_limit:
  "limit_within L s \<Longrightarrow> requested_batchSize s auto \<le> L"
  by (auto simp: limit_within_def requested_batchSize_def Let_def MIN_BATCH_SIZE_def)

lemma detectedLimit_within:
  assumes "limit_within L s"
  shows "\<exists>l. detectedLimit n (requested_batchSize s auto) (relayLimit s) = Some l \<and>
             MIN_BATCH_SIZE \<le> l \<and> l \<le> L"
proof -
  from assms obtain l where l: "relayLimit s = Some l" "MIN_BATCH_SIZE \<le> l" "l \<le> L"
    by (auto simp: limit_within_def)
  have "requested_batchSize s auto \<le> l"
    using l by (auto simp: requested_batchSize_def Let_def MIN_BATCH_SIZE_def)
  then show ?thesis using l by (auto simp: detectedLimit_def)
qed

lemma loadMoreZaps_limit_within:
  assumes "limit_within L (state h)"
  shows "limit_within L (state (after (loadMoreZaps pk tr v dr dr' fetch auto h)))"
proof (cases "issued (loadMoreZaps pk tr v dr dr' fetch auto h)")
  case None
  then have "after (loadMoreZaps pk tr v dr dr' fetch auto h) = h"
    by (auto simp: loadMoreZaps_def Let_def split: if_splits try_outcome.splits)
  then show ?thesis using assms by simp
next
  case (Some filters)
  show ?thesis
  proof (cases "fetch filters")
    case (Fetched evs)
    have "relayLimit (state (after (loadMoreZaps pk tr v dr dr' fetch auto h))) =
          detectedLimit (length (sort_newest_first (filter v evs)))
            (requested_batchSize (state h) auto) (relayLimit (state h))"
      by (simp add: loadMoreZaps_fetched_state(1)[OF Some Fetched] state_after_success_def Let_def)
    then show ?thesis using detectedLimit_within[OF assms] by (simp add: limit_within_def)
  next
    case (Thrown msg)
    have "relayLimit (state (after (loadMoreZaps pk tr v dr dr' fetch auto h))) = relayLimit (state h)"
      by (simp add: loadMoreZaps_thrown_state(1)[OF Some Thrown] state_after_failure_def)
    then show ?thesis using assms by (simp add: limit_within_def)
  qed
qed

lemma loadMoreZaps_issued_limit:
  assumes "issued (loadMoreZaps pk tr v dr dr' fetch auto h) = Some filters" "f \<in> set filters"
  shows "limit f = requested_batchSize (state h) auto"
  using loadMoreZaps_issued(1)[OF assms(1)] assms(2) by (simp add: build_filter_def)

lemma step_limit_within:
  assumes "limit_within L (state h)"
  shows "limit_within L (state (fst (step pk v a h)))"
    and "\<forall>f \<in> set (snd (step pk v a h)). limit f \<le> L \<and> limit f \<le> MAX_BATCH_SIZE"
proof -
  show "limit_within L (state (fst (step pk v a h)))"
  proof (cases a)
    case (LoadMore auto tr dr dr' outcome)
    then show ?thesis using loadMoreZaps_limit_within[OF assms] by (simp add: Let_def)
  qed (use assms in \<open>simp_all add: limit_within_def initFromCache_def toggleAutoLoad_def
         restartAutoLoad_def clearZapCaches_def Let_def\<close>)
  show "\<forall>f \<in> set (snd (step pk v a h)). limit f \<le> L \<and> limit f \<le> MAX_BATCH_SIZE"
  proof (cases a)
    case (LoadMore auto tr dr dr' outcome)
    show ?thesis
    proof (cases "issued (loadMoreZaps pk tr v dr dr' (\<lambda>filters. outcome) auto h)")
      case None
      then show ?thesis using LoadMore by (simp add: Let_def)
    next
      case (Some filters)
      then show ?thesis
        using LoadMore loadMoreZaps_issued_limit[OF Some]
          requested_batchSize_le_limit[OF assms] requested_batchSize_le_MAX
        by (simp add: Let_def)
    qed
  qed simp_all
qed

lemma run_limit_within:
  "limit_within L (state h) \<Longrightarrow>
   \<forall>f \<in> set (snd (run pk v acts h)). limit f \<le> L \<and> limit f \<le> MAX_BATCH_SIZE"
proof (induction acts arbitrary: h)
  case Nil
  show ?case by simp
next
  case (Cons a acts)
  from step_limit_within[OF Cons.prems, of pk v a] Cons.IH[of "fst (step pk v a h)"]
  show ?case by (simp only: snd_run_Cons set_append ball_Un) simp
qed



subsection \<open>The map of the fan-out\<close>

lemma Map_set_keys:
  "map fst (Map_set m k v) = (if k \<in> fst ` set m then map fst m else map fst m @ [k])"
  by (induction m k v rule: Map_set.induct) auto

lemma Map_set_distinct: "distinct (map fst m) \<Longrightarrow> distinct (map fst (Map_set m k v))"
  by (simp add: Map_set_keys)

lemma Map_set_values: "set (map snd (Map_set m k v)) \<subseteq> insert v (set (map snd m))"
  by (induction m k v rule: Map_set.induct) auto

lemma Map_set_fresh: "k \<notin> fst ` set m \<Longrightarrow> Map_set m k v = m @ [(k, v)]"
  by (induction m k v rule: Map_set.induct) auto

lemma Map_set_consistent:
  "\<forall>(k', v') \<in> set m. k' = f v' \<Longrightarrow> \<forall>(k', v') \<in> set (Map_set m (f v) v). k' = f v'"
  by (induction m "f v" v rule: Map_set.induct) auto

lemma Map_set_key_set: "fst ` set (Map_set m k v) = insert k (fst ` set m)"
proof -
  have "set (map fst (Map_set m k v)) = insert k (set (map fst m))"
    by (auto simp: Map_set_keys)
  then show ?thesis by simp
qed

lemma fold_Map_set_keys:
  "fst ` set (fold (\<lambda>(k, v) m. Map_set m k v) es m) = fst ` set m \<union> fst ` set es"
proof (induction es arbitrary: m)
  case Nil
  show ?case by simp
next
  case (Cons e es)
  obtain k v where e: "e = (k, v)" by (cases e)
  show ?case by (simp add: e Cons.IH Map_set_key_set)
qed

lemma fold_Map_set_distinct:
  "distinct (map fst m) \<Longrightarrow> distinct (map fst (fold (\<lambda>(k, v) m. Map_set m k v) es m))"
  by (induction es arbitrary: m) (auto simp: Map_set_distinct)

lemma fold_Map_set_values:
  "set (map snd (fold (\<lambda>(k, v) m. Map_set m k v) es m)) \<subseteq> snd ` set m \<union> snd ` set es"
proof (induction es arbitrary: m)
  case Nil
  show ?case by simp
next
  case (Cons e es)
  obtain k v where e: "e = (k, v)" by (cases e)
  have "set (map snd (fold (\<lambda>(k, v) m. Map_set m k v) es (Map_set m k v)))
          \<subseteq> snd ` set (Map_set m k v) \<union> snd ` set es"
    by (rule Cons.IH)
  moreover have "snd ` set (Map_set m k v) \<subseteq> insert v (snd ` set m)"
    using Map_set_values[of m k v] by simp
  ultimately show ?case unfolding e by auto
qed

lemma fold_Map_set_fresh:
  "distinct (map fst (m @ es)) \<Longrightarrow> fold (\<lambda>(k, v) m. Map_set m k v) es m = m @ es"
proof (induction es arbitrary: m)
  case Nil
  show ?case by simp
next
  case (Cons e es)
  obtain k v where e: "e = (k, v)" by (cases e)
  have k: "k \<notin> fst ` set m" using Cons.prems e by auto
  have "distinct (map fst ((m @ [(k, v)]) @ es))" using Cons.prems e by auto
  from Cons.IH[OF this] show ?case by (simp add: e Map_set_fresh[OF k])
qed

lemma fold_Map_set_consistent:
  "\<forall>(k, v) \<in> set m. k = ev_id v \<Longrightarrow>
   \<forall>(k, v) \<in> set (fold (\<lambda>(k, v) m. Map_set m k v) (map (\<lambda>e. (ev_id e, e)) es) m). k = ev_id v"
proof (induction es arbitrary: m)
  case Nil
  then show ?case by simp
next
  case (Cons e es)
  from Map_set_consistent[of m ev_id e, OF Cons.prems]
  have "\<forall>(k, v) \<in> set (Map_set m (ev_id e) e). k = ev_id v" .
  from Cons.IH[OF this] show ?case by simp
qed

lemma dedup_ids:
  "map ev_id (Map_values (new_Map (map (\<lambda>e. (ev_id e, e)) es))) =
   map fst (new_Map (map (\<lambda>e. (ev_id e, e)) es))"
proof -
  have "\<forall>(k, v) \<in> set (new_Map (map (\<lambda>e. (ev_id e, e)) es)). k = ev_id v"
    unfolding new_Map_def by (rule fold_Map_set_consistent) simp
  then show ?thesis
    unfolding Map_values_def by (induction "new_Map (map (\<lambda>e. (ev_id e, e)) es)") (auto simp: case_prod_beta)
qed

lemma set_settled_value: "is_fulfilled r \<Longrightarrow> set (settled_value r) = contributed r"
  by (cases r) (simp_all add: contributed_def)

lemma contributed_not_fulfilled: "\<not> is_fulfilled r \<Longrightarrow> contributed r = {}"
  by (cases r) (simp_all add: contributed_def)

lemma set_concat_fulfilled:
  "set (concat (map settled_value (filter is_fulfilled rs))) = (\<Union>r \<in> set rs. contributed r)"
proof (induction rs)
  case Nil
  show ?case by simp
next
  case (Cons r rs)
  then show ?case by (cases r) (simp_all add: contributed_def)
qed

lemma set_fulfilled_events:
  "set (fulfilled_events nostr filters urls) =
     contributed (query nostr filters) \<union> (\<Union>url \<in> set urls. relay_contributed nostr filters url)"
proof -
  have "(\<Union>r \<in> set (map (\<lambda>url. case relay nostr url of None \<Rightarrow> Fulfilled []
                                    | Some relay_query \<Rightarrow> relay_query filters) urls). contributed r)
        = (\<Union>url \<in> set urls. relay_contributed nostr filters url)"
    by (auto simp: relay_contributed_def contributed_def split: option.splits settled.splits)
  then show ?thesis
    unfolding fulfilled_events_def set_concat_fulfilled fanout_results_def by simp
qed

lemma fanout_eq:
  "queryWithNip65Fanout nostr filters urls =
     Map_values (new_Map (map (\<lambda>e. (ev_id e, e)) (fulfilled_events nostr filters urls)))"
  by (simp add: queryWithNip65Fanout_def fulfilled_events_def Let_def)

lemma new_Map_keys: "fst ` set (new_Map es) = fst ` set es"
  unfolding new_Map_def by (simp add: fold_Map_set_keys)

lemma new_Map_distinct: "distinct (map fst (new_Map es))"
  unfolding new_Map_def by (rule fold_Map_set_distinct) simp

lemma new_Map_values: "snd ` set (new_Map es) \<subseteq> snd ` set es"
  unfolding new_Map_def using fold_Map_set_values[of es "[]"] by simp

lemma new_Map_fresh: "distinct (map fst es) \<Longrightarrow> new_Map es = es"
  unfolding new_Map_def using fold_Map_set_fresh[of "[]" es] by simp

lemma queryWithNip65Fanout_distinct:
  "distinct (map ev_id (queryWithNip65Fanout nostr filters urls))"
proof -
  have "map ev_id (queryWithNip65Fanout nostr filters urls) =
        map fst (new_Map (map (\<lambda>e. (ev_id e, e)) (fulfilled_events nostr filters urls)))"
    unfolding fanout_eq by (rule dedup_ids)
  then show ?thesis by (simp only: new_Map_distinct)
qed

text \<open>Within one cycle the fan-out has already removed repeated ids.\<close>

lemma fanout_fetch_distinct:
  "fanout_fetch nostr urls filters = Fetched events \<Longrightarrow>
   distinct (map ev_id (filter isValid events))"
  using queryWithNip65Fanout_distinct[of nostr filters urls]
  by (auto simp: fanout_fetch_def intro: distinct_map_filter)

subsection \<open>A hook without a subject\<close>




subsection \<open>The table and the relays of the worker\<close>

lemma update_eq_id_rows:
  assumes "row' \<in> set (update_eq_id f pid table)" "post_id row' = pid"
    and "\<And>row. post_id (f row) = post_id row"
  shows "\<exists>row \<in> set table. post_id row = pid \<and> row' = f row"
proof -
  from assms(1) obtain row where row: "row \<in> set table"
    and r: "row' = (if post_id row = pid then f row else row)"
    unfolding update_eq_id_def by (auto simp only: set_map image_iff)
  show ?thesis
  proof (cases "post_id row = pid")
    case True
    with row r show ?thesis by auto
  next
    case False
    with r assms(2) show ?thesis by simp
  qed
qed

lemma updatePostStatus_rows:
  assumes "row' \<in> set (updatePostStatus now table pid Failed msg)" "post_id row' = pid"
  shows "status row' = Failed \<and> error_message row' = Some msg"
proof -
  have "\<exists>row \<in> set table. post_id row = pid \<and>
          row' = row\<lparr>status := Failed, error_message := Some msg\<rparr>"
    using assms unfolding updatePostStatus_def
    by (intro update_eq_id_rows[where f = "\<lambda>row. row\<lparr>status := Failed, error_message := Some msg\<rparr>"])
       simp_all
  then show ?thesis by auto
qed

lemma post_failed_rows:
  assumes "row' \<in> set (table_after (post_failed now table pid opened msg))" "post_id row' = pid"
  shows "status row' = Failed \<and> error_message row' = Some msg"
  using assms updatePostStatus_rows[of row' now table pid msg] by (simp add: post_failed_def)

lemma post_failed_fields:
  "connections (post_failed now table pid opened msg) = opened"
  "success (post_failed now table pid opened msg) = False"
  "result_error (post_failed now table pid opened msg) = Some msg"
  by (simp_all add: post_failed_def)






section \<open>The cache holds each receipt id once (claim C1)\<close>

text \<open>
  Claim C1, as the code has it. The merge concatenates and sorts; it removes nothing.
  If no receipt id is fetched twice in a run (manual and automatic cycles, window changes,
  failures, cache clearing, in any order) and none of the fetched ids is cached already,
  then after the run each id occurs once in the cached receipts of the state and once in
  the subject's entry of the global cache.
\<close>

theorem merged_cache_ids_distinct:
  assumes "distinct (map ev_id (allReceiptsCache (state h) @ fetched_receipts isValid acts))"
    and "distinct (map ev_id (cache_entry h (the hookPubkey) @ fetched_receipts isValid acts))"
  shows "distinct (map ev_id (allReceiptsCache (state (fst (run hookPubkey isValid acts h))))) \<and>
         distinct (map ev_id (cache_entry (fst (run hookPubkey isValid acts h)) (the hookPubkey)))"
  using caches_fresh_run[of hookPubkey h isValid acts] assms by (simp add: caches_fresh_def)

text \<open>The run with disjoint cycles satisfies the hypotheses; its cache is \<open>a, b, c\<close>.\<close>

theorem merged_cache_ids_distinct_witness:
  "distinct (map ev_id (allReceiptsCache (state fresh_hook) @ fetched_receipts any_receipt disjoint_run)) \<and>
   distinct (map ev_id (cache_entry fresh_hook (the (Some ''subject'')) @ fetched_receipts any_receipt disjoint_run)) \<and>
   distinct (map ev_id (allReceiptsCache (state (fst (run (Some ''subject'') any_receipt disjoint_run fresh_hook))))) \<and>
   map ev_id (cache_entry (fst (run (Some ''subject'') any_receipt disjoint_run fresh_hook)) ''subject'')
     = [''a'', ''b'', ''c'']"
proof -
  have a: "distinct (map ev_id (allReceiptsCache (state fresh_hook) @ fetched_receipts any_receipt disjoint_run))"
    by (simp add: input_defs)
  have b: "distinct (map ev_id (cache_entry fresh_hook (the (Some ''subject'')) @ fetched_receipts any_receipt disjoint_run))"
    by (simp add: input_defs cache_entry_def)
  have c: "map ev_id (cache_entry (fst (run (Some ''subject'') any_receipt disjoint_run fresh_hook)) ''subject'')
     = [''a'', ''b'', ''c'']"
    by (simp add: input_defs loader_defs)
  from merged_cache_ids_distinct[OF a b] a b c show ?thesis by simp
qed

text \<open>
  When the second cycle returns receipt \<open>b\<close> again, the cache holds it twice: two cycles
  with overlapping results do not leave each id exactly once.
\<close>

theorem overlapping_cycles_counterexample:
  "count_list (map ev_id (allReceiptsCache (state (fst (run (Some ''subject'') any_receipt overlapping_run fresh_hook))))) ''b'' = 2 \<and>
   map ev_id (cache_entry (fst (run (Some ''subject'') any_receipt overlapping_run fresh_hook)) ''subject'')
     = [''a'', ''b'', ''b'', ''c'']"
  by (simp add: input_defs loader_defs)

section \<open>Completion after a fetch cycle (claim C2)\<close>

text \<open>
  Claim C2. After a cycle that ran and fetched, with \<open>K\<close> valid receipts:
  \<^verbatim>\<open>isComplete\<close> holds exactly if \<open>K\<close> is zero and the window's \<^verbatim>\<open>since\<close> is set
  (non-zero, which is what the code tests), or \<open>K\<close> is non-zero and below the effective
  batch size (the relay limit detected by the end of the cycle if there is one, else the
  requested size), or \<open>K\<close> is non-zero, the window is not custom and the oldest receipt
  returned is at most one hour after \<^verbatim>\<open>since\<close>. A cycle with no valid receipt increments
  the counter of consecutive zero results, any other resets it.
\<close>

theorem completion_after_cycle:
  assumes "issued (loadMoreZaps hookPubkey timeRange isValid dr dr' fetch isAutomatic h) = Some filters"
    and "fetch filters = Fetched events"
  shows
    "let s' = state (after (loadMoreZaps hookPubkey timeRange isValid dr dr' fetch isAutomatic h));
         validReceipts = sort_newest_first (filter isValid events);
         K = length validReceipts;
         effective = (case relayLimit s' of
                        Some detected \<Rightarrow> detected
                      | None \<Rightarrow> requested_batchSize (state h) isAutomatic)
     in (isComplete s' \<longleftrightarrow>
           (K = 0 \<and> since dr' \<noteq> 0) \<or>
           (K \<noteq> 0 \<and> K < effective) \<or>
           (K \<noteq> 0 \<and> timeRange \<noteq> Custom \<and>
              Min (created_at ` set validReceipts) \<le> since dr' + 3600)) \<and>
        (K = 0 \<longrightarrow> consecutiveZeroResults s' = consecutiveZeroResults (state h) + 1) \<and>
        (K \<noteq> 0 \<longrightarrow> consecutiveZeroResults s' = 0)"
proof -
  let ?v = "sort_newest_first (filter isValid events)"
  let ?b = "requested_batchSize (state h) isAutomatic"
  let ?s' = "state (after (loadMoreZaps hookPubkey timeRange isValid dr dr' fetch isAutomatic h))"
  have s: "?s' = state_after_success timeRange dr' ?b ?v ((state h)\<lparr>isLoading := True, error := None\<rparr>)"
    by (rule loadMoreZaps_fetched_state(1)[OF assms])
  have lim: "relayLimit ?s' = detectedLimit (length ?v) ?b (relayLimit (state h))"
    by (simp add: s state_after_success_def Let_def)
  have c: "isComplete ?s' =
     cycle_isComplete timeRange dr' (or_default (detectedLimit (length ?v) ?b (relayLimit (state h))) ?b) ?v"
    by (simp add: s state_after_success_def Let_def)
  have z: "consecutiveZeroResults ?s' =
     (if length ?v = 0 then consecutiveZeroResults (state h) + 1 else 0)"
    by (simp add: s state_after_success_def Let_def)
  show ?thesis
    unfolding Let_def c z lim cycle_isComplete_iff by simp
qed

text \<open>The first cycle of the 7-day window: two receipts, limit 250 detected, complete.\<close>

theorem completion_after_cycle_witness:
  "issued (loadMoreZaps (Some ''subject'') (Preset ''7d'') any_receipt last_7d last_7d fetch_a_b False fresh_hook)
     = Some [subject_filter 1000 (Some 1699395200) (Some 1700000000)] \<and>
   fetch_a_b [subject_filter 1000 (Some 1699395200) (Some 1700000000)]
     = Fetched [receipt_at ''a'' 1699913600, receipt_at ''b'' 1699827200] \<and>
   isComplete (state (after (loadMoreZaps (Some ''subject'') (Preset ''7d'') any_receipt last_7d last_7d fetch_a_b False fresh_hook))) \<and>
   relayLimit (state (after (loadMoreZaps (Some ''subject'') (Preset ''7d'') any_receipt last_7d last_7d fetch_a_b False fresh_hook)))
     = Some 250"
proof -
  have i: "issued (loadMoreZaps (Some ''subject'') (Preset ''7d'') any_receipt last_7d last_7d fetch_a_b False fresh_hook)
     = Some [subject_filter 1000 (Some 1699395200) (Some 1700000000)]"
    by (simp add: input_defs loader_defs fetch_a_b_def subject_filter_def)
  have f: "fetch_a_b [subject_filter 1000 (Some 1699395200) (Some 1700000000)]
     = Fetched [receipt_at ''a'' 1699913600, receipt_at ''b'' 1699827200]"
    by (simp add: fetch_a_b_def)
  have l: "relayLimit (state (after (loadMoreZaps (Some ''subject'') (Preset ''7d'') any_receipt last_7d last_7d fetch_a_b False fresh_hook)))
     = Some 250"
    by (simp add: input_defs loader_defs fetch_a_b_def)
  have k: "length (sort_newest_first (filter any_receipt [receipt_at ''a'' 1699913600, receipt_at ''b'' 1699827200])) = 2"
    by (simp add: length_sort_newest_first any_receipt_def)
  from completion_after_cycle[OF i f] have
    "isComplete (state (after (loadMoreZaps (Some ''subject'') (Preset ''7d'') any_receipt last_7d last_7d fetch_a_b False fresh_hook)))"
    unfolding Let_def l k by simp
  with i f l show ?thesis by simp
qed

section \<open>Detection of the relay limit (claim C3)\<close>

text \<open>
  Claim C3. A cycle that ran and fetched \<open>K\<close> valid receipts, with \<open>K\<close> non-zero and
  below the requested batch size, leaves the detected relay limit at
  \<open>max K MIN_BATCH_SIZE\<close>; and whatever happens afterwards to the hook of the same subject
  (cycles that fetch or fail, window changes, the auto-load callbacks, cache clearing),
  every query issued asks for at most that limit and at most \<open>MAX_BATCH_SIZE\<close>.
\<close>

theorem relay_limit_detection:
  assumes "issued (loadMoreZaps hookPubkey timeRange isValid dr dr' fetch isAutomatic h) = Some filters"
    and "fetch filters = Fetched events"
    and "0 < length (filter isValid events)"
    and "length (filter isValid events) < requested_batchSize (state h) isAutomatic"
  shows
    "relayLimit (state (after (loadMoreZaps hookPubkey timeRange isValid dr dr' fetch isAutomatic h)))
       = Some (max (length (filter isValid events)) MIN_BATCH_SIZE) \<and>
     (\<forall>f \<in> set (snd (run hookPubkey isValid' acts
                        (after (loadMoreZaps hookPubkey timeRange isValid dr dr' fetch isAutomatic h)))).
        limit f \<le> max (length (filter isValid events)) MIN_BATCH_SIZE \<and> limit f \<le> MAX_BATCH_SIZE)"
proof -
  let ?h' = "after (loadMoreZaps hookPubkey timeRange isValid dr dr' fetch isAutomatic h)"
  have l: "relayLimit (state ?h') = Some (max (length (filter isValid events)) MIN_BATCH_SIZE)"
    using assms(3,4)
    by (simp add: loadMoreZaps_fetched_state(1)[OF assms(1,2)] state_after_success_def Let_def
        detectedLimit_def length_sort_newest_first)
  then have "limit_within (max (length (filter isValid events)) MIN_BATCH_SIZE) (state ?h')"
    by (simp add: limit_within_def)
  from run_limit_within[OF this] l show ?thesis by simp
qed

text \<open>
  Two receipts against a request of 1000: the limit is 250, and the next cycle asks
  for 250.
\<close>

theorem relay_limit_detection_witness:
  "issued (loadMoreZaps (Some ''subject'') (Preset ''7d'') any_receipt last_7d last_7d fetch_a_b False fresh_hook)
     = Some [subject_filter 1000 (Some 1699395200) (Some 1700000000)] \<and>
   fetch_a_b [subject_filter 1000 (Some 1699395200) (Some 1700000000)]
     = Fetched [receipt_at ''a'' 1699913600, receipt_at ''b'' 1699827200] \<and>
   0 < length (filter any_receipt [receipt_at ''a'' 1699913600, receipt_at ''b'' 1699827200]) \<and>
   length (filter any_receipt [receipt_at ''a'' 1699913600, receipt_at ''b'' 1699827200])
     < requested_batchSize (state fresh_hook) False \<and>
   relayLimit (state (after (loadMoreZaps (Some ''subject'') (Preset ''7d'') any_receipt last_7d last_7d fetch_a_b False fresh_hook)))
     = Some 250 \<and>
   map limit (snd (run (Some ''subject'') any_receipt narrower_run
      (after (loadMoreZaps (Some ''subject'') (Preset ''7d'') any_receipt last_7d last_7d fetch_a_b False fresh_hook))))
     = [250]"
proof -
  have i: "issued (loadMoreZaps (Some ''subject'') (Preset ''7d'') any_receipt last_7d last_7d fetch_a_b False fresh_hook)
     = Some [subject_filter 1000 (Some 1699395200) (Some 1700000000)]"
    by (simp add: input_defs loader_defs fetch_a_b_def subject_filter_def)
  have f: "fetch_a_b [subject_filter 1000 (Some 1699395200) (Some 1700000000)]
     = Fetched [receipt_at ''a'' 1699913600, receipt_at ''b'' 1699827200]"
    by (simp add: fetch_a_b_def)
  have p: "0 < length (filter any_receipt [receipt_at ''a'' 1699913600, receipt_at ''b'' 1699827200])"
    by (simp add: any_receipt_def)
  have q: "length (filter any_receipt [receipt_at ''a'' 1699913600, receipt_at ''b'' 1699827200])
     < requested_batchSize (state fresh_hook) False"
    by (simp add: input_defs loader_defs)
  have r: "map limit (snd (run (Some ''subject'') any_receipt narrower_run
      (after (loadMoreZaps (Some ''subject'') (Preset ''7d'') any_receipt last_7d last_7d fetch_a_b False fresh_hook))))
     = [250]"
    by (simp add: input_defs loader_defs fetch_a_b_def narrower_run_def)
  from relay_limit_detection[OF i f p q, of any_receipt narrower_run] i f p q r
  show ?thesis by (simp add: any_receipt_def MIN_BATCH_SIZE_def)
qed

section \<open>The fan-out query (claim C4)\<close>

text \<open>
  Claim C4. The fan-out query always answers with a list: \<^verbatim>\<open>Promise.allSettled\<close> does
  not reject, and nothing else in the function throws. The list has no event id twice,
  its ids are exactly the ids of the events of the sub-queries that fulfilled, and each
  of its events is one of those; a sub-query that rejects (an error, a timeout, an abort)
  or whose relay cannot be constructed adds nothing. Where the same id always means the
  same event, the result is exactly the union of the fulfilled results; and where no id
  occurs twice among the fulfilled results, the result is their concatenation. So with
  three sources of which one fails and two return disjoint results, the result is the
  union of the two.
\<close>

theorem fanout_union:
  "let result = queryWithNip65Fanout nostr filters nip65RelayUrls;
       fulfilled = contributed (query nostr filters) \<union>
                   (\<Union>url \<in> set nip65RelayUrls. relay_contributed nostr filters url)
   in distinct (map ev_id result) \<and>
      ev_id ` set result = ev_id ` fulfilled \<and>
      set result \<subseteq> fulfilled \<and>
      (inj_on ev_id fulfilled \<longrightarrow> set result = fulfilled) \<and>
      (distinct (map ev_id (fulfilled_events nostr filters nip65RelayUrls)) \<longrightarrow>
         result = fulfilled_events nostr filters nip65RelayUrls)"
proof -
  let ?all = "fulfilled_events nostr filters nip65RelayUrls"
  let ?es = "map (\<lambda>e. (ev_id e, e)) ?all"
  let ?res = "queryWithNip65Fanout nostr filters nip65RelayUrls"
  let ?U = "contributed (query nostr filters) \<union>
            (\<Union>url \<in> set nip65RelayUrls. relay_contributed nostr filters url)"
  have U: "set ?all = ?U" by (rule set_fulfilled_events)
  have ids: "map ev_id ?res = map fst (new_Map ?es)"
    unfolding fanout_eq by (rule dedup_ids)
  have a: "distinct (map ev_id ?res)"
    unfolding ids by (rule new_Map_distinct)
  have "set (map ev_id ?res) = fst ` set (new_Map ?es)" unfolding ids by simp
  also have "\<dots> = fst ` set ?es" by (rule new_Map_keys)
  also have "\<dots> = ev_id ` set ?all" by (simp add: image_image)
  finally have b: "ev_id ` set ?res = ev_id ` ?U" using U by simp
  have "set ?res = snd ` set (new_Map ?es)"
    unfolding fanout_eq Map_values_def by simp
  also have "\<dots> \<subseteq> snd ` set ?es" by (rule new_Map_values)
  also have "\<dots> = set ?all" by (simp add: image_image)
  finally have c: "set ?res \<subseteq> ?U" using U by simp
  have d: "inj_on ev_id ?U \<longrightarrow> set ?res = ?U"
  proof
    assume inj: "inj_on ev_id ?U"
    show "set ?res = ?U"
    proof
      show "set ?res \<subseteq> ?U" by (rule c)
      show "?U \<subseteq> set ?res"
      proof
        fix e assume e: "e \<in> ?U"
        then have "ev_id e \<in> ev_id ` set ?res" using b by blast
        then obtain e' where e': "e' \<in> set ?res" "ev_id e' = ev_id e" by auto
        with c have "e' \<in> ?U" by blast
        with inj e e'(2) have "e' = e" by (auto dest: inj_onD)
        with e'(1) show "e \<in> set ?res" by simp
      qed
    qed
  qed
  have e: "distinct (map ev_id ?all) \<longrightarrow> ?res = ?all"
  proof
    assume "distinct (map ev_id ?all)"
    then have "distinct (map fst ?es)" by (simp add: comp_def)
    from new_Map_fresh[OF this] show "?res = ?all"
      unfolding fanout_eq Map_values_def by (simp add: comp_def)
  qed
  from a b c d e show ?thesis unfolding Let_def by blast
qed

text \<open>One of three sources times out; the result is the union of the other two.\<close>

theorem fanout_union_witness:
  "distinct (map ev_id (fulfilled_events three_sources [] [''wss://down.example'', ''wss://other.example''])) \<and>
   inj_on ev_id (contributed (query three_sources []) \<union>
      (\<Union>url \<in> set [''wss://down.example'', ''wss://other.example'']. relay_contributed three_sources [] url)) \<and>
   queryWithNip65Fanout three_sources [] [''wss://down.example'', ''wss://other.example'']
     = [receipt_at ''a'' 1699913600, receipt_at ''b'' 1699827200, receipt_at ''c'' 1699136000] \<and>
   set (queryWithNip65Fanout three_sources [] [''wss://down.example'', ''wss://other.example''])
     = contributed (query three_sources []) \<union>
       (\<Union>url \<in> set [''wss://down.example'', ''wss://other.example'']. relay_contributed three_sources [] url)"
proof -
  have f: "fulfilled_events three_sources [] [''wss://down.example'', ''wss://other.example'']
     = [receipt_at ''a'' 1699913600, receipt_at ''b'' 1699827200, receipt_at ''c'' 1699136000]"
    by (simp add: fulfilled_events_def fanout_results_def three_sources_def relay_of_def
        pool_query_def down_query_def other_query_def)
  have d: "distinct (map ev_id (fulfilled_events three_sources [] [''wss://down.example'', ''wss://other.example'']))"
    unfolding f by (simp add: receipt_at_def)
  have u: "contributed (query three_sources []) \<union>
      (\<Union>url \<in> set [''wss://down.example'', ''wss://other.example'']. relay_contributed three_sources [] url)
     = {receipt_at ''a'' 1699913600, receipt_at ''b'' 1699827200, receipt_at ''c'' 1699136000}"
    by (simp add: contributed_def relay_contributed_def three_sources_def relay_of_def
        pool_query_def down_query_def other_query_def insert_commute)
  have i: "inj_on ev_id (contributed (query three_sources []) \<union>
      (\<Union>url \<in> set [''wss://down.example'', ''wss://other.example'']. relay_contributed three_sources [] url))"
    unfolding u by (simp add: receipt_at_def)
  note t = fanout_union[of three_sources "[]" "[''wss://down.example'', ''wss://other.example'']",
      unfolded Let_def]
  from t d have r1: "queryWithNip65Fanout three_sources [] [''wss://down.example'', ''wss://other.example'']
     = fulfilled_events three_sources [] [''wss://down.example'', ''wss://other.example'']"
    by blast
  from t i have r2: "set (queryWithNip65Fanout three_sources [] [''wss://down.example'', ''wss://other.example''])
     = contributed (query three_sources []) \<union>
       (\<Union>url \<in> set [''wss://down.example'', ''wss://other.example'']. relay_contributed three_sources [] url)"
    by blast
  show ?thesis
    by (intro conjI) (rule d, rule i, rule trans[OF r1 f], rule r2)
qed

section \<open>The until bound of a cycle (claim C5)\<close>




section \<open>Failures and the manual retry (claim C6)\<close>




section \<open>The window filter (claim C7)\<close>

text \<open>
  Claim C7, as the code has it. A receipt is in the filtered view exactly if it is in the
  cache, is not older than the window's \<^verbatim>\<open>since\<close>, and, for a custom window that has a
  (non-zero) \<^verbatim>\<open>until\<close>, is not newer than that \<^verbatim>\<open>until\<close>; both bounds are inclusive.
  A window that is not custom is filtered by \<^verbatim>\<open>since\<close> alone, whether or not it has an
  \<^verbatim>\<open>until\<close>. The view of the state is this filter of the state's cache, after a fetch
  cycle and after a change of window.
\<close>

theorem window_filter_membership:
  "(r \<in> set (filteredReceipts timeRange dr cache) \<longleftrightarrow>
      r \<in> set cache \<and> created_at r \<ge> since dr \<and>
      (timeRange = Custom \<and> truthy (until dr) \<longrightarrow> created_at r \<le> the (until dr))) \<and>
   receipts (state_after_success timeRange dr batchSize validReceipts prev) =
     filteredReceipts timeRange dr
       (allReceiptsCache (state_after_success timeRange dr batchSize validReceipts prev)) \<and>
   (truthy_str hookPubkey \<longrightarrow>
      receipts (state (initFromCache hookPubkey timeRange dr h)) =
        filteredReceipts timeRange dr
          (allReceiptsCache (state (initFromCache hookPubkey timeRange dr h))))"
  by (auto simp: filteredReceipts_def in_window_def state_after_success_def initFromCache_def Let_def)

text \<open>A custom window keeps the receipt on its upper bound and drops its neighbours.\<close>

theorem window_filter_membership_witness:
  "truthy_str (Some ''subject'') \<and>
   filteredReceipts Custom custom_window
     [receipt_at ''late'' 1699500001, receipt_at ''in'' 1699500000, receipt_at ''old'' 1698999999]
     = [receipt_at ''in'' 1699500000] \<and>
   (receipt_at ''in'' 1699500000 \<in> set (filteredReceipts Custom custom_window
     [receipt_at ''late'' 1699500001, receipt_at ''in'' 1699500000, receipt_at ''old'' 1698999999]))"
  using window_filter_membership[of "receipt_at ''in'' 1699500000" Custom custom_window
     "[receipt_at ''late'' 1699500001, receipt_at ''in'' 1699500000, receipt_at ''old'' 1698999999]"
     0 "[]" initial_state "Some ''subject''" fresh_hook]
  by (simp add: custom_window_def receipt_at_def filteredReceipts_def in_window_def)

text \<open>
  The 7-day window has an \<^verbatim>\<open>until\<close>, the late receipt is newer than it, and the view
  holds the receipt all the same.
\<close>

theorem preset_window_until_counterexample:
  "\<not> (late_receipt \<in> set (filteredReceipts (Preset ''7d'') last_7d [late_receipt]) \<longleftrightarrow>
        created_at late_receipt \<ge> since last_7d \<and>
        (until last_7d = None \<or> created_at late_receipt \<le> the (until last_7d)))"
  by (simp add: late_receipt_def receipt_at_def last_7d_def filteredReceipts_def in_window_def)

section \<open>Configuration errors (claim C8)\<close>




section \<open>Publishing a scheduled post (claim C9)\<close>



section \<open>A signed event that cannot be used (claim C10)\<close>

text \<open>
  Claim C10. When the signed event of a post is null, or the empty string, or a string
  that \<^verbatim>\<open>JSON.parse\<close> rejects, \<^verbatim>\<open>processPost\<close> opens no connection, reports failure,
  and marks every row of the post failed with the message \<open>Signed event is null\<close>, or
  \<open>Failed to parse signed event:\<close> followed by the parser's message.
\<close>

theorem unparsable_event_fails:
  assumes "signed_event post = JNull \<and> msg = ''Signed event is null'' \<or>
           signed_event post = JText [] \<and> msg = ''Signed event is null'' \<or>
           (\<exists>s parseError. signed_event post = JText s \<and> s \<noteq> [] \<and> parse_event s = Inl parseError \<and>
              msg = ''Failed to parse signed event: '' @ parseError)"
  shows
    "let r = processPost parse_event parse_relays publishToRelay now table post
     in connections r = [] \<and> \<not> success r \<and> result_error r = Some msg \<and>
        (\<forall>row \<in> set (table_after r). post_id row = post_id post \<longrightarrow>
           status row = Failed \<and> error_message row = Some msg)"
proof -
  have "parse_signed_event parse_event (signed_event post) = Inl msg"
    using assms by (auto simp: parse_signed_event_def)
  then have "processPost parse_event parse_relays publishToRelay now table post =
          post_failed now table (post_id post) [] msg"
    by (simp add: processPost_def)
  then show ?thesis
    unfolding Let_def using post_failed_rows[of _ now table "post_id post" "[]" msg]
    by (auto simp: post_failed_fields)
qed

text \<open>A signed event that does not parse: no connection, the row is failed.\<close>

theorem unparsable_event_fails_witness:
  "(signed_event (due_post (JText ''{'')) = JNull \<and>
      ''Failed to parse signed event: Unexpected token'' = ''Signed event is null'' \<or>
    signed_event (due_post (JText ''{'')) = JText [] \<and>
      ''Failed to parse signed event: Unexpected token'' = ''Signed event is null'' \<or>
    (\<exists>s parseError. signed_event (due_post (JText ''{'')) = JText s \<and> s \<noteq> [] \<and>
        parse_ok s = Inl parseError \<and>
        ''Failed to parse signed event: Unexpected token'' = ''Failed to parse signed event: '' @ parseError)) \<and>
   connections (processPost parse_ok parse_urls publish_one_down ''now''
      (one_post_table (JText ''{'')) (due_post (JText ''{''))) = [] \<and>
   map status (table_after (processPost parse_ok parse_urls publish_one_down ''now''
      (one_post_table (JText ''{'')) (due_post (JText ''{'')))) = [Pending, Failed]"
proof -
  have h: "signed_event (due_post (JText ''{'')) = JNull \<and>
      ''Failed to parse signed event: Unexpected token'' = ''Signed event is null'' \<or>
    signed_event (due_post (JText ''{'')) = JText [] \<and>
      ''Failed to parse signed event: Unexpected token'' = ''Signed event is null'' \<or>
    (\<exists>s parseError. signed_event (due_post (JText ''{'')) = JText s \<and> s \<noteq> [] \<and>
        parse_ok s = Inl parseError \<and>
        ''Failed to parse signed event: Unexpected token'' = ''Failed to parse signed event: '' @ parseError)"
    by (simp add: due_post_def parse_ok_def)
  have c: "map status (table_after (processPost parse_ok parse_urls publish_one_down ''now''
      (one_post_table (JText ''{'')) (due_post (JText ''{'')))) = [Pending, Failed]"
    by (simp add: processPost_def parse_signed_event_def parse_ok_def post_failed_def
        updatePostStatus_def update_eq_id_def one_post_table_def other_post_def due_post_def)
  from unparsable_event_fails[OF h, of parse_urls publish_one_down "''now''" "one_post_table (JText ''{'')"] h c
  show ?thesis unfolding Let_def by blast
qed

end
